theory Spec2Isabelle
  imports Main
begin

unbundle bit_operations_syntax

section \<open>Signals and registers\<close>

text \<open>
  A signal of \<open>w\<close> bits holds a natural number below \<open>2 ^ w\<close>; a synchronous
  assignment stores the value of its right-hand side truncated to the width of the
  target.  The statements of one clock domain are executed in order at every tick, all
  right-hand sides reading the values before the tick, and a later assignment to a
  register overrides an earlier one.  Combinational signals are functions of the
  registers and of the inputs of the same tick.

  The width the elaboration substrate gives to \<open>Signal(max=m)\<close> is not fixed
  by the sources under study: it is a parameter of the model (\<open>pbits\<close> for the
  pointers declared with \<open>max=depth\<close>, \<open>lbits\<close> for the level declared
  with \<open>max=depth+1\<close>), about which only one thing is assumed: every value below
  \<open>m\<close> fits (\<open>wf_cfg\<close>).
\<close>

record cfg =
  depth :: nat
  pbits :: nat
  lbits :: nat

definition wf_cfg :: "cfg \<Rightarrow> bool" where
  "wf_cfg c \<longleftrightarrow> depth c \<le> 2 ^ pbits c \<and> depth c < 2 ^ lbits c"

subsection \<open>The pointer increment \<open>_inc\<close>\<close>

text \<open>
  \<open>_inc(signal, modulo)\<close> (the modulo is \<open>m\<close> here), as the value the register \<open>signal\<close> (of
  \<open>w\<close> bits, current value \<open>s\<close>) takes at the tick.  The first branch is
  \<open>signal.eq(signal + 1)\<close>, the second the \<open>If(signal == modulo - 1, ...)\<close>.
  The comparison is made on integers, as in Python, where \<open>modulo - 1\<close> is \<open>-1\<close>
  for a modulo of zero.
\<close>

definition inc_trunc :: "nat \<Rightarrow> nat \<Rightarrow> nat" where
  "inc_trunc w s = (s + 1) mod 2 ^ w"

definition inc_reset :: "nat \<Rightarrow> nat \<Rightarrow> nat \<Rightarrow> nat" where
  "inc_reset w s m = (if int s = int m - 1 then 0 else (s + 1) mod 2 ^ w)"

definition fifo_inc :: "nat \<Rightarrow> nat \<Rightarrow> nat \<Rightarrow> nat" where
  "fifo_inc w s m = (if m = 2 ^ w then inc_trunc w s else inc_reset w s m)"

section \<open>SyncFIFO\<close>

text \<open>The ports every variant shares that the caller drives at a tick.\<close>

record 'a fifo_in =
  we :: bool
  din :: 'a
  re :: bool
  flush :: bool

text \<open>
  The registers of \<open>SyncFIFO\<close> and its memory.  The memory holds elements of
  the queue's width only, so the element type is a parameter.  The memory is modelled as
  a function from addresses; that the addresses used stay below the depth is proved
  below (\<open>SyncFIFO_inv\<close>).
\<close>

record 'a syncfifo =
  produce :: nat
  consume :: nat
  level :: nat
  storage :: "nat \<Rightarrow> 'a"

definition SyncFIFO_init :: "(nat \<Rightarrow> 'a) \<Rightarrow> 'a syncfifo" where
  "SyncFIFO_init mem = \<lparr>produce = 0, consume = 0, level = 0, storage = mem\<rparr>"

definition writable :: "cfg \<Rightarrow> 'a syncfifo \<Rightarrow> bool" where
  "writable c s \<longleftrightarrow> level s \<noteq> depth c"

definition readable :: "'a syncfifo \<Rightarrow> bool" where
  "readable s \<longleftrightarrow> level s \<noteq> 0"

definition do_write :: "cfg \<Rightarrow> 'a syncfifo \<Rightarrow> 'a fifo_in \<Rightarrow> bool" where
  "do_write c s i \<longleftrightarrow> writable c s \<and> we i"

definition do_read :: "'a syncfifo \<Rightarrow> 'a fifo_in \<Rightarrow> bool" where
  "do_read s i \<longleftrightarrow> readable s \<and> re i"

text \<open>The asynchronous read port: \<open>dout\<close> is the slot at \<open>consume\<close>.\<close>

definition dout :: "'a syncfifo \<Rightarrow> 'a" where
  "dout s = storage s (consume s)"

text \<open>
  One tick.  The write port stores \<open>din\<close> at \<open>produce\<close> when \<open>do_write\<close>;
  the two \<open>If(do_write, _inc(...))\<close> and \<open>If(do_read, _inc(...))\<close> statements
  come before the \<open>If(flush, ...)\<close> block, which overrides them.
\<close>

definition SyncFIFO_step :: "cfg \<Rightarrow> 'a fifo_in \<Rightarrow> 'a syncfifo \<Rightarrow> 'a syncfifo" where
  "SyncFIFO_step c i s =
    \<lparr>produce =
       (if flush i then 0
        else if do_write c s i then fifo_inc (pbits c) (produce s) (depth c)
        else produce s),
     consume =
       (if flush i then 0
        else if do_read s i then fifo_inc (pbits c) (consume s) (depth c)
        else consume s),
     level =
       (if flush i then 0
        else if do_write c s i then
          (if \<not> do_read s i then (level s + 1) mod 2 ^ lbits c else level s)
        else if do_read s i then nat ((int (level s) - 1) mod 2 ^ lbits c)
        else level s),
     storage =
       (if do_write c s i then (storage s)(produce s := din i) else storage s)\<rparr>"

fun SyncFIFO_run :: "cfg \<Rightarrow> 'a syncfifo \<Rightarrow> 'a fifo_in list \<Rightarrow> 'a syncfifo" where
  "SyncFIFO_run c s [] = s"
| "SyncFIFO_run c s (i # is) = SyncFIFO_run c (SyncFIFO_step c i s) is"

text \<open>The values committed writes store, and the values committed reads deliver.\<close>

fun committed :: "cfg \<Rightarrow> 'a syncfifo \<Rightarrow> 'a fifo_in list \<Rightarrow> 'a list" where
  "committed c s [] = []"
| "committed c s (i # is) =
     (if do_write c s i then [din i] else []) @ committed c (SyncFIFO_step c i s) is"

fun delivered :: "cfg \<Rightarrow> 'a syncfifo \<Rightarrow> 'a fifo_in list \<Rightarrow> 'a list" where
  "delivered c s [] = []"
| "delivered c s (i # is) =
     (if do_read s i then [dout s] else []) @ delivered c (SyncFIFO_step c i s) is"

text \<open>The elements in the ring, oldest first: \<open>level\<close> slots from \<open>consume\<close> on.\<close>

definition pending :: "cfg \<Rightarrow> 'a syncfifo \<Rightarrow> 'a list" where
  "pending c s = map (\<lambda>k. storage s ((consume s + k) mod depth c)) [0..<level s]"

definition SyncFIFO_inv :: "cfg \<Rightarrow> 'a syncfifo \<Rightarrow> bool" where
  "SyncFIFO_inv c s \<longleftrightarrow>
     level s \<le> depth c \<and>
     (consume s < depth c \<or> depth c = 0 \<and> consume s = 0) \<and>
     produce s = (consume s + level s) mod depth c"

subsection \<open>The queue the interface promises\<close>

text \<open>
  The unread elements, oldest first, as the interface contract describes them: a
  committed read acknowledges the oldest element, a committed write appends, a flush
  discards everything (the write of the same tick included).
\<close>

definition queue_tick :: "bool \<Rightarrow> bool \<Rightarrow> bool \<Rightarrow> 'a \<Rightarrow> 'a list \<Rightarrow> 'a list" where
  "queue_tick wcommit rcommit fl d q =
     (if fl then [] else (if rcommit then tl q else q) @ (if wcommit then [d] else []))"

text \<open>\<open>SyncFIFO\<close> run together with the unread elements of its interface.\<close>

fun SyncFIFO_trace ::
    "cfg \<Rightarrow> 'a syncfifo \<times> 'a list \<Rightarrow> 'a fifo_in list \<Rightarrow> 'a syncfifo \<times> 'a list" where
  "SyncFIFO_trace c sq [] = sq"
| "SyncFIFO_trace c sq (i # is) =
     SyncFIFO_trace c
       (SyncFIFO_step c i (fst sq),
        queue_tick (do_write c (fst sq) i) (do_read (fst sq) i) (flush i) (din i) (snd sq)) is"

text \<open>
  The committed writes and the committed reads counted since the last flush (a flush
  resets both counts, the commits of its own tick included).
\<close>

fun since_flush ::
    "cfg \<Rightarrow> 'a syncfifo \<Rightarrow> nat \<times> nat \<Rightarrow> 'a fifo_in list \<Rightarrow> nat \<times> nat" where
  "since_flush c s n [] = n"
| "since_flush c s n (i # is) =
     since_flush c (SyncFIFO_step c i s)
       (if flush i then (0, 0)
        else (fst n + (if do_write c s i then 1 else 0),
              snd n + (if do_read s i then 1 else 0))) is"


section \<open>SyncFIFOClassic\<close>

text \<open>
  The wrapper aliases every port of the inner \<open>SyncFIFO\<close> but \<open>dout\<close>, which
  is its own register, loaded from the inner \<open>dout\<close> on a committed read.
\<close>

record 'a classic =
  c_fifo :: "'a syncfifo"
  c_dout :: 'a

definition SyncFIFOClassic_init :: "(nat \<Rightarrow> 'a) \<Rightarrow> 'a \<Rightarrow> 'a classic" where
  "SyncFIFOClassic_init mem d0 = \<lparr>c_fifo = SyncFIFO_init mem, c_dout = d0\<rparr>"

definition SyncFIFOClassic_step :: "cfg \<Rightarrow> 'a fifo_in \<Rightarrow> 'a classic \<Rightarrow> 'a classic" where
  "SyncFIFOClassic_step c i s =
    \<lparr>c_fifo = SyncFIFO_step c i (c_fifo s),
     c_dout = (if re i \<and> readable (c_fifo s) then dout (c_fifo s) else c_dout s)\<rparr>"

fun SyncFIFOClassic_trace ::
    "cfg \<Rightarrow> 'a classic \<times> 'a list \<Rightarrow> 'a fifo_in list \<Rightarrow> 'a classic \<times> 'a list" where
  "SyncFIFOClassic_trace c sq [] = sq"
| "SyncFIFOClassic_trace c sq (i # is) =
     SyncFIFOClassic_trace c
       (SyncFIFOClassic_step c i (fst sq),
        queue_tick (writable c (c_fifo (fst sq)) \<and> we i) (readable (c_fifo (fst sq)) \<and> re i)
          (flush i) (din i) (snd sq)) is"

section \<open>SyncFIFOBuffered\<close>

text \<open>
  Wraps \<open>SyncFIFOClassic\<close>; \<open>readable\<close> and \<open>re\<close> are its own, the
  other ports are the inner ones (\<open>dout\<close> is the register of the classic stage).
\<close>

record 'a buffered =
  b_fifo :: "'a classic"
  b_readable :: bool

definition SyncFIFOBuffered_init :: "(nat \<Rightarrow> 'a) \<Rightarrow> 'a \<Rightarrow> 'a buffered" where
  "SyncFIFOBuffered_init mem d0 = \<lparr>b_fifo = SyncFIFOClassic_init mem d0, b_readable = False\<rparr>"

definition b_writable :: "cfg \<Rightarrow> 'a buffered \<Rightarrow> bool" where
  "b_writable c s \<longleftrightarrow> writable c (c_fifo (b_fifo s))"

definition b_dout :: "'a buffered \<Rightarrow> 'a" where
  "b_dout s = c_dout (b_fifo s)"

definition b_level :: "'a buffered \<Rightarrow> nat" where
  "b_level s = level (c_fifo (b_fifo s))"

text \<open>\<open>fifo.re.eq(fifo.readable & (~self.readable | self.re))\<close>\<close>

definition b_fifo_re :: "'a buffered \<Rightarrow> 'a fifo_in \<Rightarrow> bool" where
  "b_fifo_re s i \<longleftrightarrow> readable (c_fifo (b_fifo s)) \<and> (\<not> b_readable s \<or> re i)"

definition SyncFIFOBuffered_step :: "cfg \<Rightarrow> 'a fifo_in \<Rightarrow> 'a buffered \<Rightarrow> 'a buffered" where
  "SyncFIFOBuffered_step c i s =
    \<lparr>b_fifo = SyncFIFOClassic_step c (i\<lparr>re := b_fifo_re s i\<rparr>) (b_fifo s),
     b_readable =
       (if flush i then False
        else if b_fifo_re s i then True
        else if re i then False
        else b_readable s)\<rparr>"

fun SyncFIFOBuffered_trace ::
    "cfg \<Rightarrow> 'a buffered \<times> 'a list \<Rightarrow> 'a fifo_in list \<Rightarrow> 'a buffered \<times> 'a list" where
  "SyncFIFOBuffered_trace c sq [] = sq"
| "SyncFIFOBuffered_trace c sq (i # is) =
     SyncFIFOBuffered_trace c
       (SyncFIFOBuffered_step c i (fst sq),
        queue_tick (b_writable c (fst sq) \<and> we i) (b_readable (fst sq) \<and> re i)
          (flush i) (din i) (snd sq)) is"

text \<open>
  What the registers hold in terms of the unread elements \<open>q\<close>: the output
  register, when valid, is the oldest, and the ring of the inner queue holds the rest.
\<close>

definition buffered_inv :: "cfg \<Rightarrow> 'a buffered \<Rightarrow> 'a list \<Rightarrow> bool" where
  "buffered_inv c s q \<longleftrightarrow>
     SyncFIFO_inv c (c_fifo (b_fifo s)) \<and>
     q = (if b_readable s then [b_dout s] else []) @ pending c (c_fifo (b_fifo s))"


section \<open>SyncFIFORelaxed\<close>

text \<open>
  Wraps \<open>SyncFIFO\<close>; \<open>writable\<close>, \<open>din\<close> and \<open>flush\<close> are the inner
  ports, the rest is its own.  Registers: \<open>dout\<close>, \<open>dout_readable\<close>,
  \<open>buff\<close>, \<open>buff_readable\<close>.
\<close>

record 'a relaxed =
  r_fifo :: "'a syncfifo"
  r_dout :: 'a
  dout_readable :: bool
  buff :: 'a
  buff_readable :: bool

definition SyncFIFORelaxed_init :: "(nat \<Rightarrow> 'a) \<Rightarrow> 'a \<Rightarrow> 'a relaxed" where
  "SyncFIFORelaxed_init mem d0 =
     \<lparr>r_fifo = SyncFIFO_init mem, r_dout = d0, dout_readable = False,
      buff = d0, buff_readable = False\<rparr>"

definition r_writable :: "cfg \<Rightarrow> 'a relaxed \<Rightarrow> bool" where
  "r_writable c s \<longleftrightarrow> writable c (r_fifo s)"

definition r_readable :: "'a relaxed \<Rightarrow> bool" where
  "r_readable s \<longleftrightarrow> buff_readable s \<or> dout_readable s"

definition do_shunt :: "'a relaxed \<Rightarrow> 'a fifo_in \<Rightarrow> bool" where
  "do_shunt s i \<longleftrightarrow> we i \<and> \<not> readable (r_fifo s) \<and> \<not> (r_readable s \<and> \<not> re i)"

definition r_fifo_we :: "'a relaxed \<Rightarrow> 'a fifo_in \<Rightarrow> bool" where
  "r_fifo_we s i \<longleftrightarrow> we i \<and> \<not> do_shunt s i"

definition r_fifo_re :: "'a relaxed \<Rightarrow> 'a fifo_in \<Rightarrow> bool" where
  "r_fifo_re s i \<longleftrightarrow> re i \<or> \<not> r_readable s"

definition r_dout_bits :: "'a relaxed \<Rightarrow> 'a" where
  "r_dout_bits s = (if buff_readable s then buff s else r_dout s)"

text \<open>
  \<open>self.level.eq(fifo.level + buff_readable)\<close>, into a signal declared with
  \<open>max=depth + 2\<close>, whose width is the parameter \<open>w\<close>.
\<close>

definition r_level :: "nat \<Rightarrow> 'a relaxed \<Rightarrow> nat" where
  "r_level w s = (level (r_fifo s) + (if buff_readable s then 1 else 0)) mod 2 ^ w"

definition SyncFIFORelaxed_step :: "cfg \<Rightarrow> 'a fifo_in \<Rightarrow> 'a relaxed \<Rightarrow> 'a relaxed" where
  "SyncFIFORelaxed_step c i s =
    \<lparr>r_fifo = SyncFIFO_step c (i\<lparr>we := r_fifo_we s i, re := r_fifo_re s i\<rparr>) (r_fifo s),
     r_dout = dout (r_fifo s),
     dout_readable = (if flush i then False else readable (r_fifo s)),
     buff =
       (if do_shunt s i then din i
        else if \<not> re i \<and> \<not> buff_readable s then r_dout s
        else buff s),
     buff_readable =
       (if flush i then False
        else if do_shunt s i then True
        else if \<not> re i \<and> \<not> buff_readable s then dout_readable s
        else if re i \<and> buff_readable s then False
        else buff_readable s)\<rparr>"

fun SyncFIFORelaxed_trace ::
    "cfg \<Rightarrow> 'a relaxed \<times> 'a list \<Rightarrow> 'a fifo_in list \<Rightarrow> 'a relaxed \<times> 'a list" where
  "SyncFIFORelaxed_trace c sq [] = sq"
| "SyncFIFORelaxed_trace c sq (i # is) =
     SyncFIFORelaxed_trace c
       (SyncFIFORelaxed_step c i (fst sq),
        queue_tick (r_writable c (fst sq) \<and> we i) (r_readable (fst sq) \<and> re i)
          (flush i) (din i) (snd sq)) is"


text \<open>
  What the registers hold in terms of the unread elements \<open>q\<close>.  With
  \<open>buff_readable\<close> the bypass cell is the oldest and the ring holds the rest (the
  mirror \<open>dout\<close> is then a copy of the head of the ring, not an element of its
  own); without it a valid mirror is the oldest, already taken out of the ring.
\<close>

definition relaxed_inv :: "cfg \<Rightarrow> 'a relaxed \<Rightarrow> 'a list \<Rightarrow> bool" where
  "relaxed_inv c s q \<longleftrightarrow>
     SyncFIFO_inv c (r_fifo s) \<and>
     (let p = pending c (r_fifo s) in
      if buff_readable s then
        q = buff s # p \<and> (dout_readable s \<longrightarrow> p \<noteq> [] \<and> r_dout s = hd p)
      else if dout_readable s then q = r_dout s # p
      else q = [] \<and> p = [])"


section \<open>Concrete instances\<close>

text \<open>
  A queue of depth 4 with pointers of 2 bits and a level of 3 bits, natural numbers as
  elements, a memory of zeros, and the inputs of a tick that only writes, only reads or
  only flushes.
\<close>

definition c4 :: cfg where
  "c4 = \<lparr>depth = 4, pbits = 2, lbits = 3\<rparr>"

definition mem0 :: "nat \<Rightarrow> nat" where
  "mem0 = (\<lambda>_. 0)"

definition wr :: "nat \<Rightarrow> nat fifo_in" where
  "wr v = \<lparr>we = True, din = v, re = False, flush = False\<rparr>"

definition rd :: "nat fifo_in" where
  "rd = \<lparr>we = False, din = 0, re = True, flush = False\<rparr>"

definition fl :: "nat fifo_in" where
  "fl = \<lparr>we = False, din = 0, re = False, flush = True\<rparr>"


section \<open>Properties\<close>

subsection \<open>The pointer increment\<close>

lemma inc_trunc_mod: "m = 2 ^ w \<Longrightarrow> inc_trunc w s = (s + 1) mod m"
  by (simp add: inc_trunc_def)

lemma inc_reset_mod:
  assumes "s < m" and "m \<le> 2 ^ w"
  shows "inc_reset w s m = (s + 1) mod m"
proof (cases "s + 1 = m")
  case True
  then have "int s = int m - 1" by linarith
  moreover from True have "(s + 1) mod m = 0" by simp
  ultimately show ?thesis by (simp add: inc_reset_def)
next
  case False
  with assms have "s + 1 < m" by simp
  moreover from this assms have "s + 1 < 2 ^ w" by simp
  moreover from False have "int s \<noteq> int m - 1" by linarith
  ultimately show ?thesis by (simp add: inc_reset_def)
qed

lemma fifo_inc_mod:
  assumes "s < m" and "m \<le> 2 ^ w"
  shows "fifo_inc w s m = (s + 1) mod m"
  using assms by (simp add: fifo_inc_def inc_trunc_mod inc_reset_mod)

text \<open>
  C8.  For a pointer \<open>s\<close> below the depth \<open>m\<close>, in a signal wide enough
  for every value below \<open>m\<close>: the truncating increment, which is the branch taken
  when \<open>m\<close> is two to the width, and the compare-and-reset increment both give
  \<open>(s + 1) mod m\<close>, and so does \<open>_inc\<close> whichever branch it takes.
\<close>

theorem inc_branches_agree:
  assumes "s < m" and "m \<le> 2 ^ w"
  shows "(m = 2 ^ w \<longrightarrow> inc_trunc w s = (s + 1) mod m) \<and>
         inc_reset w s m = (s + 1) mod m \<and>
         fifo_inc w s m = (s + 1) mod m"
  using assms by (simp add: inc_trunc_mod inc_reset_mod fifo_inc_mod)

theorem inc_branches_agree_witness:
  "(3::nat) < 4 \<and> (4::nat) \<le> 2 ^ 2 \<and>
   inc_trunc 2 3 = (3 + 1) mod 4 \<and>
   inc_reset 2 3 4 = (3 + 1) mod 4 \<and> fifo_inc 2 3 4 = (3 + 1) mod 4"
proof -
  have h1: "(3::nat) < 4" and h2: "(4::nat) \<le> 2 ^ 2" by simp_all
  show ?thesis using h1 h2 inc_branches_agree [OF h1 h2] by simp
qed

subsection \<open>SyncFIFO: the ring holds the unread elements\<close>

lemma mod_add_inj_le:
  fixes k l d c :: nat
  assumes "k \<le> l" "l < d" "(c + k) mod d = (c + l) mod d"
  shows "k = l"
proof (rule ccontr)
  assume "k \<noteq> l"
  with assms have pos: "0 < l - k" and lt: "l - k < d" by simp_all
  from assms(1) have "c + k \<le> c + l" by simp
  from mod_eq_dvd_iff_nat[OF this, of d] assms(3)
  have "d dvd (c + l) - (c + k)" by simp
  then have "d dvd l - k" by simp
  with nat_dvd_not_less[OF pos lt] show False by simp
qed

lemma mod_add_inj:
  fixes k l d c :: nat
  assumes "k < d" "l < d" "(c + k) mod d = (c + l) mod d"
  shows "k = l"
proof (cases "k \<le> l")
  case True
  then show ?thesis using assms(2,3) by (rule mod_add_inj_le)
next
  case False
  then have "l \<le> k" by simp
  then have "l = k" using assms(1) assms(3)[symmetric] by (rule mod_add_inj_le)
  then show ?thesis by simp
qed


lemma SyncFIFO_inv_init: "SyncFIFO_inv c (SyncFIFO_init mem)"
  by (auto simp: SyncFIFO_inv_def SyncFIFO_init_def)

lemma level_inc_exact:
  assumes "wf_cfg c" "l < depth c"
  shows "(l + 1) mod 2 ^ lbits c = l + 1"
  using assms by (simp add: wf_cfg_def)

lemma level_dec_exact:
  assumes "wf_cfg c" "l \<le> depth c" "l \<noteq> 0"
  shows "nat ((int l - 1) mod 2 ^ lbits c) = l - 1"
proof -
  from assms have "l < 2 ^ lbits c" by (simp add: wf_cfg_def)
  then have "int l < 2 ^ lbits c"
    by (metis of_nat_less_iff of_nat_numeral of_nat_power)
  with assms have "int l - 1 < 2 ^ lbits c" "0 \<le> int l - 1"
    by linarith+
  then have "(int l - 1) mod 2 ^ lbits c = int l - 1" by simp
  then show ?thesis using assms by simp
qed

text \<open>The registers after a tick, with the truncations resolved.\<close>

lemma SyncFIFO_step_level:
  assumes "wf_cfg c" "SyncFIFO_inv c s"
  shows "level (SyncFIFO_step c i s) =
      (if flush i then 0
       else level s + (if do_write c s i then 1 else 0) - (if do_read s i then 1 else 0))"
  using assms level_inc_exact[of c "level s"] level_dec_exact[of c "level s"]
  by (auto simp: SyncFIFO_step_def SyncFIFO_inv_def do_write_def do_read_def writable_def readable_def)

lemma SyncFIFO_step_produce:
  assumes "wf_cfg c" "SyncFIFO_inv c s"
  shows "produce (SyncFIFO_step c i s) =
      (if flush i then 0
       else if do_write c s i then (produce s + 1) mod depth c else produce s)"
proof -
  have "fifo_inc (pbits c) (produce s) (depth c) = (produce s + 1) mod depth c"
    if "do_write c s i"
  proof -
    from that assms have "level s < depth c" 
      by (auto simp: do_write_def writable_def SyncFIFO_inv_def)
    then have "produce s < depth c" using assms by (auto simp: SyncFIFO_inv_def)
    then show ?thesis using assms by (intro fifo_inc_mod) (auto simp: wf_cfg_def)
  qed
  then show ?thesis by (auto simp: SyncFIFO_step_def)
qed

lemma SyncFIFO_step_consume:
  assumes "wf_cfg c" "SyncFIFO_inv c s"
  shows "consume (SyncFIFO_step c i s) =
      (if flush i then 0
       else if do_read s i then (consume s + 1) mod depth c else consume s)"
proof -
  have "fifo_inc (pbits c) (consume s) (depth c) = (consume s + 1) mod depth c"
    if "do_read s i"
  proof -
    from that assms have "0 < depth c" 
      by (auto simp: do_read_def readable_def SyncFIFO_inv_def)
    then have "consume s < depth c" using assms by (auto simp: SyncFIFO_inv_def)
    then show ?thesis using assms by (intro fifo_inc_mod) (auto simp: wf_cfg_def)
  qed
  then show ?thesis by (auto simp: SyncFIFO_step_def)
qed

lemma SyncFIFO_step_storage:
  "storage (SyncFIFO_step c i s) =
     (if do_write c s i then (storage s)(produce s := din i) else storage s)"
  by (simp add: SyncFIFO_step_def)

lemma SyncFIFO_step_inv:
  assumes "wf_cfg c" "SyncFIFO_inv c s"
  shows "SyncFIFO_inv c (SyncFIFO_step c i s)"
proof (cases "flush i")
  case True
  then show ?thesis by (auto simp: SyncFIFO_inv_def SyncFIFO_step_def)
next
  case False
  let ?t = "SyncFIFO_step c i s"
  have lv: "level ?t \<le> depth c"
    using assms False
    by (auto simp: SyncFIFO_step_level SyncFIFO_inv_def do_write_def writable_def)
  have cs: "consume ?t < depth c \<or> depth c = 0 \<and> consume ?t = 0"
    using assms False
    by (auto simp: SyncFIFO_step_consume SyncFIFO_inv_def do_read_def readable_def)
  have pr: "produce ?t = (consume ?t + level ?t) mod depth c"
  proof -
    have rd: "level s \<noteq> 0" if "do_read s i" using that by (simp add: do_read_def readable_def)
    have p: "produce s = (consume s + level s) mod depth c"
      using assms by (simp add: SyncFIFO_inv_def)
    show ?thesis
      using assms(1) assms(2) False rd
      by (auto simp: SyncFIFO_step_level SyncFIFO_step_consume SyncFIFO_step_produce p mod_simps)
  qed
  from lv cs pr show ?thesis by (simp add: SyncFIFO_inv_def)
qed

lemma length_pending: "length (pending c s) = level s"
  by (simp add: pending_def)

lemma pending_nth:
  "k < level s \<Longrightarrow> pending c s ! k = storage s ((consume s + k) mod depth c)"
  by (simp add: pending_def)

lemma pending_flush: "flush i \<Longrightarrow> pending c (SyncFIFO_step c i s) = []"
  by (simp add: pending_def SyncFIFO_step_def)

lemma dout_hd_pending:
  assumes "SyncFIFO_inv c s" "readable s"
  shows "dout s = hd (pending c s)"
proof -
  from assms have "0 < level s" "consume s < depth c"
    by (auto simp: readable_def SyncFIFO_inv_def)
  then show ?thesis
    by (simp add: hd_conv_nth length_pending pending_nth dout_def flip: length_greater_0_conv)
qed

lemma pending_step:
  assumes wf: "wf_cfg c" and inv: "SyncFIFO_inv c s" and nf: "\<not> flush i"
  shows "pending c (SyncFIFO_step c i s) =
     drop (if do_read s i then 1 else 0)
       (pending c s @ (if do_write c s i then [din i] else []))"
proof -
  define t where "t = SyncFIFO_step c i s"
  define r :: nat where "r = (if do_read s i then 1 else 0)"
  define w where "w = (if do_write c s i then [din i] else [])"
  have rd: "r \<le> level s"
    by (simp add: r_def do_read_def readable_def)
  have lv: "level t = level s + length w - r"
    using wf inv nf by (simp add: SyncFIFO_step_level t_def r_def w_def)
  have p: "produce s = (consume s + level s) mod depth c"
    and le: "level s \<le> depth c"
    using inv by (simp_all add: SyncFIFO_inv_def)
  have cons: "(consume t + k) mod depth c = (consume s + (k + r)) mod depth c" for k
    using wf inv nf by (simp add: SyncFIFO_step_consume mod_simps t_def r_def)
  have st: "storage t = (if do_write c s i then (storage s)(produce s := din i) else storage s)"
    by (simp add: t_def SyncFIFO_step_storage)
  have "pending c t = drop r (pending c s @ w)"
  proof (rule nth_equalityI)
    show "length (pending c t) = length (drop r (pending c s @ w))"
      by (simp add: length_pending lv)
    show "pending c t ! k = drop r (pending c s @ w) ! k" if "k < length (pending c t)" for k
    proof -
      from that have k: "k < level t" by (simp add: length_pending)
      have L: "pending c t ! k = storage t ((consume s + (k + r)) mod depth c)"
        using k by (simp add: pending_nth cons)
      have R: "drop r (pending c s @ w) ! k = (pending c s @ w) ! (k + r)"
      proof -
        from rd have "r \<le> length (pending c s @ w)" by (simp add: length_pending)
        then show ?thesis by (simp only: nth_drop add.commute)
      qed
      show ?thesis
      proof (cases "k + r < level s")
        case True
        have "(consume s + (k + r)) mod depth c \<noteq> produce s" if "do_write c s i"
        proof
          assume "(consume s + (k + r)) mod depth c = produce s"
          with p have b: "(consume s + (k + r)) mod depth c = (consume s + level s) mod depth c"
            by (simp only:)
          from that le have lt: "level s < depth c"
            by (simp add: do_write_def writable_def)
          with True have a: "k + r < depth c" by (rule less_trans)
          from mod_add_inj[OF a lt b] True show False by (simp only: less_irrefl)
        qed
        then have "pending c t ! k = storage s ((consume s + (k + r)) mod depth c)"
          by (simp add: L st)
        also have "\<dots> = pending c s ! (k + r)"
          using True by (simp add: pending_nth)
        also have "\<dots> = drop r (pending c s @ w) ! k"
          unfolding R using True by (simp add: nth_append length_pending)
        finally show ?thesis .
      next
        case False
        with k lv have eq: "k + r = level s" and wr: "do_write c s i"
          by (auto simp: w_def split: if_splits)
        then have "pending c t ! k = din i"
          by (simp add: L st p)
        also have "\<dots> = drop r (pending c s @ w) ! k"
          unfolding R using eq wr by (simp add: nth_append length_pending w_def)
        finally show ?thesis .
      qed
    qed
  qed
  then show ?thesis by (simp add: t_def r_def w_def)
qed

lemma SyncFIFO_run_inv:
  "wf_cfg c \<Longrightarrow> SyncFIFO_inv c s \<Longrightarrow> SyncFIFO_inv c (SyncFIFO_run c s is)"
  by (induction "is" arbitrary: s) (simp_all add: SyncFIFO_step_inv)

lemma SyncFIFO_run_append:
  "SyncFIFO_run c s (is @ js) = SyncFIFO_run c (SyncFIFO_run c s is) js"
  by (induction "is" arbitrary: s) simp_all

lemma pending_order:
  assumes "wf_cfg c" "SyncFIFO_inv c s" "\<forall>i\<in>set is. \<not> flush i"
  shows "pending c s @ committed c s is = delivered c s is @ pending c (SyncFIFO_run c s is)"
  using assms(2,3)
proof (induction "is" arbitrary: s)
  case Nil
  show ?case by simp
next
  case (Cons i "is")
  let ?t = "SyncFIFO_step c i s"
  let ?w = "if do_write c s i then [din i] else []"
  from Cons.prems have nf: "\<not> flush i" by simp
  have t: "pending c ?t = drop (if do_read s i then 1 else 0) (pending c s @ ?w)"
    using assms(1) Cons.prems(1) nf by (rule pending_step)
  have split: "pending c s @ ?w = (if do_read s i then [dout s] else []) @ pending c ?t"
  proof (cases "do_read s i")
    case True
    then have r: "readable s" by (simp add: do_read_def)
    then have "pending c s \<noteq> []"
      by (simp add: readable_def flip: length_greater_0_conv add: length_pending)
    then have "pending c s @ ?w = hd (pending c s) # drop 1 (pending c s @ ?w)"
      by (cases "pending c s") simp_all
    with True r Cons.prems(1) show ?thesis
      by (simp add: t dout_hd_pending)
  next
    case False
    then show ?thesis by (simp add: t)
  qed
  have "SyncFIFO_inv c ?t" using assms(1) Cons.prems(1) by (rule SyncFIFO_step_inv)
  moreover from Cons.prems have "\<forall>i\<in>set is. \<not> flush i" by simp
  ultimately have IH: "pending c ?t @ committed c ?t is =
      delivered c ?t is @ pending c (SyncFIFO_run c ?t is)"
    by (rule Cons.IH)
  have "pending c s @ committed c s (i # is) = (pending c s @ ?w) @ committed c ?t is"
    by simp
  also have "\<dots> = (if do_read s i then [dout s] else []) @ pending c ?t @ committed c ?t is"
    by (simp only: split append_assoc)
  also have "\<dots> = delivered c s (i # is) @ pending c (SyncFIFO_run c s (i # is))"
    by (simp add: IH)
  finally show ?case .
qed


lemma pending_tick:
  assumes wf: "wf_cfg c" and inv: "SyncFIFO_inv c s"
  shows "pending c (SyncFIFO_step c i s) =
     queue_tick (do_write c s i) (do_read s i) (flush i) (din i) (pending c s)"
proof (cases "flush i")
  case True
  then show ?thesis by (simp add: pending_flush queue_tick_def)
next
  case False
  have "pending c s \<noteq> []" if "do_read s i"
    using that by (simp add: do_read_def readable_def flip: length_greater_0_conv add: length_pending)
  then have "drop (if do_read s i then 1 else 0) (pending c s @ (if do_write c s i then [din i] else []))
     = (if do_read s i then tl (pending c s) else pending c s) @ (if do_write c s i then [din i] else [])"
    by (cases "pending c s") auto
  with False show ?thesis
    by (simp add: pending_step[OF wf inv] queue_tick_def)
qed

lemma SyncFIFO_trace_pending:
  assumes "wf_cfg c" "SyncFIFO_inv c s"
  shows "SyncFIFO_trace c (s, pending c s) is = (SyncFIFO_run c s is, pending c (SyncFIFO_run c s is))"
  using assms(2)
proof (induction "is" arbitrary: s)
  case Nil
  show ?case by simp
next
  case (Cons i "is")
  from assms(1) Cons.prems have "SyncFIFO_inv c (SyncFIFO_step c i s)" by (rule SyncFIFO_step_inv)
  from Cons.IH[OF this] show ?case
    by (simp add: pending_tick[OF assms(1) Cons.prems])
qed

lemma pending_init: "pending c (SyncFIFO_init mem) = []"
  by (simp add: pending_def SyncFIFO_init_def)

lemma SyncFIFO_trace_init:
  assumes "wf_cfg c"
  shows "SyncFIFO_trace c (SyncFIFO_init mem, []) is =
     (SyncFIFO_run c (SyncFIFO_init mem) is, pending c (SyncFIFO_run c (SyncFIFO_init mem) is))"
  using SyncFIFO_trace_pending[OF assms SyncFIFO_inv_init, of mem "is"]
  by (simp add: pending_init)


text \<open>
  C1.  From the state after any inputs \<open>js\<close>, over inputs \<open>is\<close> in which
  \<open>flush\<close> is never asserted: the elements in the ring followed by the values of
  the committed writes are the values delivered by the committed reads followed by the
  elements left in the ring; from reset the delivered values are therefore a prefix of
  the committed ones, in order.  A tick with \<open>flush\<close> leaves the ring empty.
  Scenario A: at depth 4 the writes of 10, 20, 30, 40 are all committed, \<open>writable\<close>
  holds before each of them and not after the fourth; four reads then deliver
  10, 20, 30, 40, with \<open>readable\<close> true before the last read and false after it.
\<close>

theorem SyncFIFO_order:
  "(wf_cfg c \<longrightarrow> (\<forall>i\<in>set is. \<not> flush i) \<longrightarrow>
      (let s = SyncFIFO_run c (SyncFIFO_init mem) js in
        pending c s @ committed c s is = delivered c s is @ pending c (SyncFIFO_run c s is)) \<and>
      committed c (SyncFIFO_init mem) is =
        delivered c (SyncFIFO_init mem) is @ pending c (SyncFIFO_run c (SyncFIFO_init mem) is)) \<and>
   (flush i \<longrightarrow> pending c (SyncFIFO_step c i t) = []) \<and>
   (let ws = [wr 10, wr 20, wr 30, wr 40]; s0 = SyncFIFO_init mem0; s4 = SyncFIFO_run c4 s0 ws in
      committed c4 s0 ws = [10, 20, 30, 40] \<and>
      writable c4 s0 \<and> writable c4 (SyncFIFO_run c4 s0 (take 1 ws)) \<and>
      writable c4 (SyncFIFO_run c4 s0 (take 2 ws)) \<and>
      writable c4 (SyncFIFO_run c4 s0 (take 3 ws)) \<and> \<not> writable c4 s4 \<and>
      delivered c4 s4 [rd, rd, rd, rd] = [10, 20, 30, 40] \<and>
      readable (SyncFIFO_run c4 s4 [rd, rd, rd]) \<and>
      \<not> readable (SyncFIFO_run c4 s4 [rd, rd, rd, rd]))"
proof -
  have general: "pending c s @ committed c s is = delivered c s is @ pending c (SyncFIFO_run c s is)"
    if "wf_cfg c" "\<forall>i\<in>set is. \<not> flush i" "s = SyncFIFO_run c (SyncFIFO_init mem) js" for s js
  proof -
    from that(1,3) have "SyncFIFO_inv c s"
      by (simp add: SyncFIFO_run_inv SyncFIFO_inv_init)
    with that(1) show ?thesis using that(2) by (rule pending_order)
  qed
  have reset: "committed c (SyncFIFO_init mem) is =
      delivered c (SyncFIFO_init mem) is @ pending c (SyncFIFO_run c (SyncFIFO_init mem) is)"
    if "wf_cfg c" "\<forall>i\<in>set is. \<not> flush i"
    using general[OF that, of "SyncFIFO_init mem" "[]"] by (simp add: pending_init)
  have scenario:
    "let ws = [wr 10, wr 20, wr 30, wr 40]; s0 = SyncFIFO_init mem0; s4 = SyncFIFO_run c4 s0 ws in
      committed c4 s0 ws = [10, 20, 30, 40] \<and>
      writable c4 s0 \<and> writable c4 (SyncFIFO_run c4 s0 (take 1 ws)) \<and>
      writable c4 (SyncFIFO_run c4 s0 (take 2 ws)) \<and>
      writable c4 (SyncFIFO_run c4 s0 (take 3 ws)) \<and> \<not> writable c4 s4 \<and>
      delivered c4 s4 [rd, rd, rd, rd] = [10, 20, 30, 40] \<and>
      readable (SyncFIFO_run c4 s4 [rd, rd, rd]) \<and>
      \<not> readable (SyncFIFO_run c4 s4 [rd, rd, rd, rd])"
    by code_simp
  show ?thesis
    using general reset scenario by (simp add: Let_def pending_flush)
qed

theorem SyncFIFO_order_witness:
  "wf_cfg c4 \<and> \<not> flush (wr 10) \<and> \<not> flush (wr 20) \<and> \<not> flush rd \<and>
   committed c4 (SyncFIFO_init mem0) [wr 10, wr 20, rd] =
     delivered c4 (SyncFIFO_init mem0) [wr 10, wr 20, rd] @
       pending c4 (SyncFIFO_run c4 (SyncFIFO_init mem0) [wr 10, wr 20, rd]) \<and>
   delivered c4 (SyncFIFO_init mem0) [wr 10, wr 20, rd] = [10]"
proof -
  have h1: "wf_cfg c4" by (simp add: wf_cfg_def c4_def)
  have h2: "\<forall>i\<in>set [wr 10, wr 20, rd]. \<not> flush i" by (simp add: wr_def rd_def)
  have d: "delivered c4 (SyncFIFO_init mem0) [wr 10, wr 20, rd] = [10]" by code_simp
  from SyncFIFO_order [of c4 "[wr 10, wr 20, rd]" mem0 "[]"] h1 h2
  have "committed c4 (SyncFIFO_init mem0) [wr 10, wr 20, rd] =
     delivered c4 (SyncFIFO_init mem0) [wr 10, wr 20, rd] @
       pending c4 (SyncFIFO_run c4 (SyncFIFO_init mem0) [wr 10, wr 20, rd])"
    by blast
  with h1 d show ?thesis by (simp add: wr_def rd_def)
qed

text \<open>
  With a flush among the inputs the delivered values are not a prefix of the committed
  ones: the write of 10 is committed and then discarded.
\<close>

theorem SyncFIFO_order_flush_counterexample:
  "committed c4 (SyncFIFO_init mem0) [wr 10, fl, wr 20, rd] = [10, 20] \<and>
   delivered c4 (SyncFIFO_init mem0) [wr 10, fl, wr 20, rd] = [20]"
  by code_simp

lemma readable_pending: "readable s \<longleftrightarrow> pending c s \<noteq> []"
  by (simp add: readable_def flip: length_greater_0_conv add: length_pending)

lemma writable_pending: "writable c s \<longleftrightarrow> length (pending c s) \<noteq> depth c"
  by (simp add: writable_def length_pending)


subsection \<open>SyncFIFOBuffered\<close>

lemma buffered_step_inv:
  assumes wf: "wf_cfg c" and inv: "buffered_inv c s q"
  shows "buffered_inv c (SyncFIFOBuffered_step c i s)
     (queue_tick (b_writable c s \<and> we i) (b_readable s \<and> re i) (flush i) (din i) q)"
proof -
  let ?f = "c_fifo (b_fifo s)"
  let ?i = "i\<lparr>re := b_fifo_re s i\<rparr>"
  from inv have finv: "SyncFIFO_inv c ?f"
    and q: "q = (if b_readable s then [b_dout s] else []) @ pending c ?f"
    by (simp_all add: buffered_inv_def)
  have f': "c_fifo (b_fifo (SyncFIFOBuffered_step c i s)) = SyncFIFO_step c ?i ?f"
    by (simp add: SyncFIFOBuffered_step_def SyncFIFOClassic_step_def)
  have p': "pending c (SyncFIFO_step c ?i ?f) =
      queue_tick (writable c ?f \<and> we i) (b_fifo_re s i) (flush i) (din i) (pending c ?f)"
    using pending_tick[OF wf finv, of ?i]
    by (simp add: do_write_def do_read_def b_fifo_re_def)
  have d: "dout ?f = hd (pending c ?f)" if "readable ?f"
    using finv that by (rule dout_hd_pending)
  have "SyncFIFO_inv c (SyncFIFO_step c ?i ?f)" using wf finv by (rule SyncFIFO_step_inv)
  moreover have "queue_tick (b_writable c s \<and> we i) (b_readable s \<and> re i) (flush i) (din i) q =
     (if b_readable (SyncFIFOBuffered_step c i s) then [b_dout (SyncFIFOBuffered_step c i s)] else [])
       @ pending c (SyncFIFO_step c ?i ?f)"
    unfolding p' q using d
    by (cases "pending c ?f")
       (auto simp: queue_tick_def SyncFIFOBuffered_step_def SyncFIFOClassic_step_def b_dout_def
          b_writable_def b_fifo_re_def readable_pending[of _ c])
  ultimately show ?thesis by (simp add: buffered_inv_def f')
qed


subsection \<open>SyncFIFORelaxed\<close>

lemma relaxed_step_inv:
  assumes wf: "wf_cfg c" and pos: "0 < depth c" and inv: "relaxed_inv c s q"
  shows "relaxed_inv c (SyncFIFORelaxed_step c i s)
     (queue_tick (r_writable c s \<and> we i) (r_readable s \<and> re i) (flush i) (din i) q)"
proof -
  let ?f = "r_fifo s"
  let ?i = "i\<lparr>we := r_fifo_we s i, re := r_fifo_re s i\<rparr>"
  let ?t = "SyncFIFORelaxed_step c i s"
  from inv have finv: "SyncFIFO_inv c ?f"
    by (simp_all add: relaxed_inv_def)
  have f': "r_fifo ?t = SyncFIFO_step c ?i ?f"
    by (simp add: SyncFIFORelaxed_step_def)
  have p': "pending c (SyncFIFO_step c ?i ?f) =
      queue_tick (writable c ?f \<and> r_fifo_we s i) (readable ?f \<and> r_fifo_re s i) (flush i) (din i) (pending c ?f)"
    using pending_tick[OF wf finv, of ?i]
    by (simp add: do_write_def do_read_def)
  have d: "dout ?f = hd (pending c ?f)" if "pending c ?f \<noteq> []"
    using finv that by (simp add: dout_hd_pending readable_pending[of _ c])
  have w: "writable c ?f" if "pending c ?f = []"
    using that pos by (simp add: writable_pending)
  have finv': "SyncFIFO_inv c (SyncFIFO_step c ?i ?f)" using wf finv by (rule SyncFIFO_step_inv)
  have regs: "r_dout ?t = dout ?f"
       "dout_readable ?t = (if flush i then False else readable ?f)"
       "buff ?t = (if do_shunt s i then din i
        else if \<not> re i \<and> \<not> buff_readable s then r_dout s
        else buff s)"
       "buff_readable ?t = (if flush i then False
        else if do_shunt s i then True
        else if \<not> re i \<and> \<not> buff_readable s then dout_readable s
        else if re i \<and> buff_readable s then False
        else buff_readable s)"
    by (simp_all add: SyncFIFORelaxed_step_def)
  show ?thesis
    unfolding relaxed_inv_def f' p' regs Let_def
    using inv finv' d w
    by (cases "pending c ?f")
       (auto simp: relaxed_inv_def Let_def queue_tick_def r_writable_def r_readable_def
          do_shunt_def r_fifo_we_def r_fifo_re_def readable_pending[of _ c] split: if_splits)
qed

lemma SyncFIFOBuffered_trace_inv:
  assumes "wf_cfg c" "buffered_inv c (fst sq) (snd sq)"
  shows "buffered_inv c (fst (SyncFIFOBuffered_trace c sq is)) (snd (SyncFIFOBuffered_trace c sq is))"
  using assms(2)
proof (induction "is" arbitrary: sq)
  case Nil
  then show ?case by simp
next
  case (Cons i "is")
  show ?case
    by (simp, rule Cons.IH) (simp add: buffered_step_inv[OF assms(1) Cons.prems])
qed

lemma buffered_inv_init: "buffered_inv c (SyncFIFOBuffered_init mem d0) []"
  by (simp add: buffered_inv_def SyncFIFOBuffered_init_def SyncFIFOClassic_init_def
      SyncFIFO_inv_init pending_init)

lemma SyncFIFORelaxed_trace_inv:
  assumes "wf_cfg c" "0 < depth c" "relaxed_inv c (fst sq) (snd sq)"
  shows "relaxed_inv c (fst (SyncFIFORelaxed_trace c sq is)) (snd (SyncFIFORelaxed_trace c sq is))"
  using assms(3)
proof (induction "is" arbitrary: sq)
  case Nil
  then show ?case by simp
next
  case (Cons i "is")
  show ?case
    by (simp, rule Cons.IH) (simp add: relaxed_step_inv[OF assms(1,2) Cons.prems])
qed

lemma relaxed_inv_init: "relaxed_inv c (SyncFIFORelaxed_init mem d0) []"
  by (simp add: relaxed_inv_def SyncFIFORelaxed_init_def SyncFIFO_inv_init pending_init)

text \<open>The inner queue of the relaxed wrapper keeps its invariant at every depth.\<close>

lemma SyncFIFORelaxed_trace_inner:
  assumes "wf_cfg c" "SyncFIFO_inv c (r_fifo (fst sq))"
  shows "SyncFIFO_inv c (r_fifo (fst (SyncFIFORelaxed_trace c sq is)))"
  using assms(2)
proof (induction "is" arbitrary: sq)
  case Nil
  then show ?case by simp
next
  case (Cons i "is")
  show ?case
    by (simp, rule Cons.IH)
       (simp add: SyncFIFORelaxed_step_def SyncFIFO_step_inv[OF assms(1) Cons.prems])
qed

lemma SyncFIFO_inv_level: "SyncFIFO_inv c s \<Longrightarrow> level s \<le> depth c"
  by (simp add: SyncFIFO_inv_def)

lemma r_level_le: "r_level w s \<le> level (r_fifo s) + 1"
proof -
  have "r_level w s \<le> level (r_fifo s) + (if buff_readable s then 1 else 0)"
    unfolding r_level_def by (rule mod_less_eq_dividend)
  then show ?thesis by (simp split: if_splits)
qed


lemma SyncFIFO_step_idle:
  assumes "\<not> do_write c s i" "\<not> do_read s i" "\<not> flush i"
  shows "SyncFIFO_step c i s = s"
  using assms by (simp add: SyncFIFO_step_def)

lemma shunt_step:
  assumes "do_shunt s i"
  shows "buff (SyncFIFORelaxed_step c i s) = din i"
    and "\<not> r_fifo_we s i"
    and "storage (r_fifo (SyncFIFORelaxed_step c i s)) = storage (r_fifo s)"
    and "\<not> flush i \<Longrightarrow> buff_readable (SyncFIFORelaxed_step c i s)"
    and "\<not> flush i \<Longrightarrow> r_fifo (SyncFIFORelaxed_step c i s) = r_fifo s"
proof -
  from assms have nr: "\<not> readable (r_fifo s)" by (simp add: do_shunt_def)
  show "buff (SyncFIFORelaxed_step c i s) = din i"
    using assms by (simp add: SyncFIFORelaxed_step_def)
  show nw: "\<not> r_fifo_we s i" using assms by (simp add: r_fifo_we_def)
  show "storage (r_fifo (SyncFIFORelaxed_step c i s)) = storage (r_fifo s)"
    using nw by (simp add: SyncFIFORelaxed_step_def SyncFIFO_step_def do_write_def)
  show "buff_readable (SyncFIFORelaxed_step c i s)" if "\<not> flush i"
    using assms that by (simp add: SyncFIFORelaxed_step_def)
  show "r_fifo (SyncFIFORelaxed_step c i s) = r_fifo s" if "\<not> flush i"
    using nw nr that
    by (simp add: SyncFIFORelaxed_step_def SyncFIFO_step_idle do_write_def do_read_def)
qed

lemma since_flush_level:
  assumes "wf_cfg c" "SyncFIFO_inv c s" "level s + snd n = fst n"
  shows "level (SyncFIFO_run c s is) + snd (since_flush c s n is) = fst (since_flush c s n is)"
  using assms(2,3)
proof (induction "is" arbitrary: s n)
  case Nil
  then show ?case by simp
next
  case (Cons i "is")
  define n' where "n' = (if flush i then (0, 0)
        else (fst n + (if do_write c s i then 1 else 0),
              snd n + (if do_read s i then 1 else 0 :: nat)))"
  have rd: "level s \<noteq> 0" if "do_read s i"
    using that by (simp add: do_read_def readable_def)
  have inv': "SyncFIFO_inv c (SyncFIFO_step c i s)"
    using assms(1) Cons.prems(1) by (rule SyncFIFO_step_inv)
  have "level (SyncFIFO_step c i s) + snd n' = fst n'"
    using Cons.prems(2) rd
    by (auto simp: n'_def SyncFIFO_step_level[OF assms(1) Cons.prems(1)])
  with inv' have "level (SyncFIFO_run c (SyncFIFO_step c i s) is) +
      snd (since_flush c (SyncFIFO_step c i s) n' is) =
      fst (since_flush c (SyncFIFO_step c i s) n' is)"
    by (rule Cons.IH)
  then show ?case by (simp add: n'_def)
qed

text \<open>
  C3.  After any inputs from reset, the level of \<open>SyncFIFO\<close> is at most the depth,
  is the number of writes committed since the last flush less the number of reads
  committed since then, and is the number of unread elements of the interface; the level
  \<open>SyncFIFORelaxed\<close> reports is at most the depth plus one.  (Levels are natural
  numbers, so they are never negative.)
\<close>

theorem level_bounds:
  assumes "wf_cfg c"
  shows "(let s = SyncFIFO_run c (SyncFIFO_init mem) is;
              n = since_flush c (SyncFIFO_init mem) (0, 0) is in
            0 \<le> level s \<and> level s \<le> depth c \<and> snd n \<le> fst n \<and> level s = fst n - snd n) \<and>
         (let sq = SyncFIFO_trace c (SyncFIFO_init mem, []) is in
            level (fst sq) \<le> depth c \<and> level (fst sq) = length (snd sq)) \<and>
         0 \<le> r_level w (fst (SyncFIFORelaxed_trace c (SyncFIFORelaxed_init mem d0, []) is)) \<and>
         r_level w (fst (SyncFIFORelaxed_trace c (SyncFIFORelaxed_init mem d0, []) is)) \<le> depth c + 1"
proof -
  let ?s = "SyncFIFO_run c (SyncFIFO_init mem) is"
  let ?n = "since_flush c (SyncFIFO_init mem) (0, 0) is"
  have "SyncFIFO_inv c ?s" using assms by (simp add: SyncFIFO_run_inv SyncFIFO_inv_init)
  then have le: "level ?s \<le> depth c" by (rule SyncFIFO_inv_level)
  have "level ?s + snd ?n = fst ?n"
    using assms SyncFIFO_inv_init by (rule since_flush_level) (simp add: SyncFIFO_init_def)
  then have n: "snd ?n \<le> fst ?n \<and> level ?s = fst ?n - snd ?n" by linarith
  from le have a: "let sq = SyncFIFO_trace c (SyncFIFO_init mem, []) is in
            level (fst sq) \<le> depth c \<and> level (fst sq) = length (snd sq)"
    by (simp add: SyncFIFO_trace_init[OF assms] length_pending)
  let ?r = "fst (SyncFIFORelaxed_trace c (SyncFIFORelaxed_init mem d0, []) is)"
  have "SyncFIFO_inv c (r_fifo ?r)"
    using assms by (rule SyncFIFORelaxed_trace_inner) (simp add: SyncFIFORelaxed_init_def SyncFIFO_inv_init)
  then have "level (r_fifo ?r) \<le> depth c" by (rule SyncFIFO_inv_level)
  with r_level_le[of w ?r] have "r_level w ?r \<le> depth c + 1" by simp
  with a le n show ?thesis by (simp add: Let_def)
qed

theorem level_bounds_witness:
  "wf_cfg c4 \<and>
   (let s = SyncFIFO_run c4 (SyncFIFO_init mem0) [wr 10, wr 20, rd];
        n = since_flush c4 (SyncFIFO_init mem0) (0, 0) [wr 10, wr 20, rd] in
      0 \<le> level s \<and> level s \<le> depth c4 \<and> snd n \<le> fst n \<and> level s = fst n - snd n) \<and>
   (let sq = SyncFIFO_trace c4 (SyncFIFO_init mem0, []) [wr 10, wr 20, rd] in
      level (fst sq) \<le> depth c4 \<and> level (fst sq) = length (snd sq)) \<and>
   0 \<le> r_level 3 (fst (SyncFIFORelaxed_trace c4 (SyncFIFORelaxed_init mem0 0, []) [wr 10, wr 20, rd])) \<and>
   r_level 3 (fst (SyncFIFORelaxed_trace c4 (SyncFIFORelaxed_init mem0 0, []) [wr 10, wr 20, rd]))
     \<le> depth c4 + 1 \<and>
   level (SyncFIFO_run c4 (SyncFIFO_init mem0) [wr 10, wr 20, rd]) = 1"
proof -
  have h: "wf_cfg c4" by (simp add: wf_cfg_def c4_def)
  have v: "level (SyncFIFO_run c4 (SyncFIFO_init mem0) [wr 10, wr 20, rd]) = 1" by code_simp
  from h v level_bounds [OF h, of mem0 "[wr 10, wr 20, rd]" 3 0] show ?thesis by blast
qed

text \<open>
  C5.  \<open>do_shunt\<close> is: \<open>we\<close> asserted, the inner queue not readable (its level
  zero), and not (\<open>readable\<close> and not \<open>re\<close>).  The inner write-enable is
  \<open>we\<close> masked by \<open>do_shunt\<close>.  At a tick with \<open>do_shunt\<close> the bypass
  cell takes \<open>din\<close> and the inner memory is not written; when the tick does not flush
  the cell is valid afterwards and the inner queue is unchanged altogether.  After any
  inputs from reset the reported level is the inner level plus one if \<open>buff_readable\<close>,
  the level signal being wide enough for the depth plus one.
\<close>

theorem relaxed_shunt:
  "(do_shunt s i \<longleftrightarrow> we i \<and> \<not> readable (r_fifo s) \<and> \<not> (r_readable s \<and> \<not> re i)) \<and>
   (readable (r_fifo s) \<longleftrightarrow> level (r_fifo s) \<noteq> 0) \<and>
   (r_fifo_we s i \<longleftrightarrow> we i \<and> \<not> do_shunt s i) \<and>
   (do_shunt s i \<longrightarrow>
      buff (SyncFIFORelaxed_step c i s) = din i \<and>
      \<not> r_fifo_we s i \<and>
      storage (r_fifo (SyncFIFORelaxed_step c i s)) = storage (r_fifo s) \<and>
      (\<not> flush i \<longrightarrow>
         buff_readable (SyncFIFORelaxed_step c i s) \<and>
         r_fifo (SyncFIFORelaxed_step c i s) = r_fifo s)) \<and>
   (wf_cfg c \<longrightarrow> depth c + 1 < 2 ^ w \<longrightarrow>
      (let t = fst (SyncFIFORelaxed_trace c (SyncFIFORelaxed_init mem d0, []) is) in
         r_level w t = level (r_fifo t) + (if buff_readable t then 1 else 0)))"
proof -
  have lv: "r_level w t = level (r_fifo t) + (if buff_readable t then 1 else 0)"
    if "wf_cfg c" "depth c + 1 < 2 ^ w"
      and "t = fst (SyncFIFORelaxed_trace c (SyncFIFORelaxed_init mem d0, []) is)" for t
  proof -
    have "SyncFIFO_inv c (r_fifo t)"
      unfolding that(3) using that(1)
      by (rule SyncFIFORelaxed_trace_inner) (simp add: SyncFIFORelaxed_init_def SyncFIFO_inv_init)
    then have "level (r_fifo t) \<le> depth c" by (rule SyncFIFO_inv_level)
    with that(2) have "level (r_fifo t) + (if buff_readable t then 1 else 0) < 2 ^ w"
      by (simp split: if_splits)
    then show ?thesis by (simp add: r_level_def)
  qed
  show ?thesis
    using lv
    by (auto simp: Let_def shunt_step) (simp_all add: do_shunt_def r_fifo_we_def readable_def)
qed

theorem relaxed_shunt_witness:
  "do_shunt (SyncFIFORelaxed_init mem0 0) (wr 10) \<and> \<not> flush (wr 10) \<and>
   wf_cfg c4 \<and> depth c4 + 1 < 2 ^ 3 \<and>
   buff (SyncFIFORelaxed_step c4 (wr 10) (SyncFIFORelaxed_init mem0 0)) = 10 \<and>
   buff_readable (SyncFIFORelaxed_step c4 (wr 10) (SyncFIFORelaxed_init mem0 0)) \<and>
   r_fifo (SyncFIFORelaxed_step c4 (wr 10) (SyncFIFORelaxed_init mem0 0)) =
     r_fifo (SyncFIFORelaxed_init mem0 0) \<and>
   r_level 3 (fst (SyncFIFORelaxed_trace c4 (SyncFIFORelaxed_init mem0 0, []) [wr 10, wr 20])) = 2"
proof -
  have h1: "do_shunt (SyncFIFORelaxed_init mem0 0) (wr 10)"
    by (simp add: do_shunt_def SyncFIFORelaxed_init_def SyncFIFO_init_def readable_def
        r_readable_def wr_def)
  have h2: "\<not> flush (wr 10)" by (simp add: wr_def)
  have h3: "wf_cfg c4" by (simp add: wf_cfg_def c4_def)
  have h4: "depth c4 + 1 < 2 ^ 3" by (simp add: c4_def)
  have v: "level (r_fifo (fst (SyncFIFORelaxed_trace c4 (SyncFIFORelaxed_init mem0 0, []) [wr 10, wr 20]))) = 1
     \<and> buff_readable (fst (SyncFIFORelaxed_trace c4 (SyncFIFORelaxed_init mem0 0, []) [wr 10, wr 20]))"
    by code_simp
  have d: "din (wr 10) = 10" by (simp add: wr_def)
  from relaxed_shunt [of "SyncFIFORelaxed_init mem0 0" "wr 10" c4 3 mem0 0 "[wr 10, wr 20]"]
    h1 h2 h3 h4 v d
  show ?thesis by (simp add: Let_def)
qed

end
